theory Spec2Isabelle
  imports Main "HOL-Library.Word"
begin

section \<open>Single-precision arithmetic\<close>

text \<open>
  The source computes with the C++ type \<^verbatim>\<open>float\<close>: IEEE-754 binary32 with the default
  rounding (to nearest, ties to even), where every operation rounds its exact result once
  (no fused multiply-add, no wider intermediate format). A finite value is kept as its sign
  and its magnitude, counted in units of \<open>2^-149\<close>, the smallest subnormal: a value with
  biased exponent \<open>E\<close> and fraction \<open>F\<close> has the magnitude \<open>F\<close> when \<open>E = 0\<close> and
  \<open>(2^23 + F) * 2^(E - 1)\<close> otherwise. All NaNs are one value: payloads are not modelled.
\<close>

datatype f32 = Finite bool nat | Infinity bool | NaN

fun bitlen :: "nat \<Rightarrow> nat" where
  "bitlen n = (if n = 0 then 0 else Suc (bitlen (n div 2)))"

declare bitlen.simps [simp del]

text \<open>The number of bits of a natural number. A magnitude is representable when it has at
  most 24 significant bits and is below \<open>2^128\<close>, that is \<open>2^277\<close> units.\<close>

definition representable :: "nat \<Rightarrow> bool" where
  "representable k = (k < 2 ^ 277 \<and> 2 ^ (bitlen k - 24) dvd k)"

fun valid_f32 :: "f32 \<Rightarrow> bool" where
  "valid_f32 (Finite s k) = representable k"
| "valid_f32 (Infinity s) = True"
| "valid_f32 NaN = True"

text \<open>\<open>N / D\<close> rounded to the nearest natural number, ties to the even one.\<close>

definition round_nearest_even :: "nat \<Rightarrow> nat \<Rightarrow> nat" where
  "round_nearest_even N D =
     (let m = N div D; r = N mod D
      in if 2 * r < D then m
         else if D < 2 * r then m + 1
         else if even m then m else m + 1)"

text \<open>The magnitude \<open>N / D\<close> units rounded to binary32: the quotient keeps 24 significant
  bits (all of its bits below \<open>2^24\<close> units, where the spacing is one unit), and a rounded
  magnitude beyond the largest finite value overflows to infinity.\<close>

definition round_magnitude :: "nat \<Rightarrow> nat \<Rightarrow> nat" where
  "round_magnitude N D =
     (let sh = bitlen (N div D) - 24
      in round_nearest_even N (D * 2 ^ sh) * 2 ^ sh)"

definition round_f32 :: "bool \<Rightarrow> nat \<Rightarrow> nat \<Rightarrow> f32" where
  "round_f32 s N D =
     (let k = round_magnitude N D
      in if 2 ^ 277 \<le> k then Infinity s else Finite s k)"

definition with_sign :: "bool \<Rightarrow> nat \<Rightarrow> int" where
  "with_sign s k = (if s then - int k else int k)"

fun fadd :: "f32 \<Rightarrow> f32 \<Rightarrow> f32" where
  "fadd NaN y = NaN"
| "fadd x NaN = NaN"
| "fadd (Infinity s) (Infinity t) = (if s = t then Infinity s else NaN)"
| "fadd (Infinity s) (Finite t k) = Infinity s"
| "fadd (Finite s k) (Infinity t) = Infinity t"
| "fadd (Finite s k) (Finite t l) =
     (let z = with_sign s k + with_sign t l
      in if z = 0 then Finite (s \<and> t) 0
         else round_f32 (z < 0) (nat \<bar>z\<bar>) 1)"

fun fmul :: "f32 \<Rightarrow> f32 \<Rightarrow> f32" where
  "fmul NaN y = NaN"
| "fmul x NaN = NaN"
| "fmul (Infinity s) (Infinity t) = Infinity (s \<noteq> t)"
| "fmul (Infinity s) (Finite t k) = (if k = 0 then NaN else Infinity (s \<noteq> t))"
| "fmul (Finite s k) (Infinity t) = (if k = 0 then NaN else Infinity (s \<noteq> t))"
| "fmul (Finite s k) (Finite t l) = round_f32 (s \<noteq> t) (k * l) (2 ^ 149)"

fun fdiv :: "f32 \<Rightarrow> f32 \<Rightarrow> f32" where
  "fdiv NaN y = NaN"
| "fdiv x NaN = NaN"
| "fdiv (Infinity s) (Infinity t) = NaN"
| "fdiv (Infinity s) (Finite t k) = Infinity (s \<noteq> t)"
| "fdiv (Finite s k) (Infinity t) = Finite (s \<noteq> t) 0"
| "fdiv (Finite s k) (Finite t l) =
     (if l = 0 then (if k = 0 then NaN else Infinity (s \<noteq> t))
      else round_f32 (s \<noteq> t) (k * 2 ^ 149) l)"

text \<open>The comparison \<^verbatim>\<open>==\<close>: a NaN equals nothing, the two zeros are equal.\<close>

fun feq :: "f32 \<Rightarrow> f32 \<Rightarrow> bool" where
  "feq (Finite s k) (Finite t l) = (k = l \<and> (s = t \<or> k = 0))"
| "feq (Infinity s) (Infinity t) = (s = t)"
| "feq x y = False"

text \<open>The literal \<^verbatim>\<open>0.0f\<close>, and the float of a natural number that needs no rounding.\<close>

definition zero_f32 :: f32 where
  "zero_f32 = Finite False 0"

definition f32_of_nat :: "nat \<Rightarrow> f32" where
  "f32_of_nat n = Finite False (n * 2 ^ 149)"

definition f32_neg :: "f32 \<Rightarrow> f32" where
  "f32_neg x = (case x of Finite s k \<Rightarrow> Finite (\<not> s) k | Infinity s \<Rightarrow> Infinity (\<not> s) | NaN \<Rightarrow> NaN)"

text \<open>The value that a 32-bit pattern encodes: sign bit, eight bits of biased exponent,
  23 bits of fraction.\<close>

definition f32_of_bits :: "32 word \<Rightarrow> f32" where
  "f32_of_bits b =
     (let s = bit b 31;
          E = unat (take_bit 8 (drop_bit 23 b));
          F = unat (take_bit 23 b)
      in if E = 255 then (if F = 0 then Infinity s else NaN)
         else Finite s (if E = 0 then F else (2 ^ 23 + F) * 2 ^ (E - 1)))"

section \<open>Memory\<close>

text \<open>
  A pointer to \<^verbatim>\<open>float\<close> is an address counted in cells of one float; address 0 is
  \<^verbatim>\<open>nullptr\<close>. The state is the store, which maps the allocated cells to their contents,
  and the trace of the reads made so far, each recorded as base pointer and index.
  Reading a cell that is not allocated is undefined behaviour in C++; the model stops
  with \<open>AccessViolation\<close>.
\<close>

type_synonym addr = nat

definition nullptr :: addr where
  "nullptr = 0"

record state =
  mem :: "addr \<Rightarrow> f32 option"
  reads :: "(addr \<times> nat) list"

datatype error = InvalidInput | AccessViolation

definition load :: "addr \<Rightarrow> nat \<Rightarrow> state \<Rightarrow> (error + f32) \<times> state" where
  "load p i s =
     (case mem s (p + i) of
        None \<Rightarrow> (Inl AccessViolation, s)
      | Some v \<Rightarrow> (Inr v, s\<lparr>reads := reads s @ [(p, i)]\<rparr>))"

section \<open>CalculateUtility\<close>

text \<open>
  \<^verbatim>\<open>size_t\<close> is an unsigned machine word of the platform's width. Below the bound of the
  loop, the increment \<^verbatim>\<open>++i\<close> does not wrap around.
\<close>

lemma unat_succ_less:
  assumes "i < (len :: 'a::len word)"
  shows "unat (i + 1) = Suc (unat i)"
proof -
  have "i \<noteq> - 1"
    using assms word_n1_ge [of len] by auto
  then have "1 + i \<noteq> 0"
    by (simp add: add.commute eq_neg_iff_add_eq_0)
  then show ?thesis
    using unatSuc [of i] by (simp add: add.commute)
qed

text \<open>
  The loop \<^verbatim>\<open>for (size_t i = 0; i < length; ++i)\<close> with its two accumulators; \<open>len\<close> is the
  parameter \<^verbatim>\<open>length\<close>. An iteration reads \<^verbatim>\<open>factors[i]\<close> and \<^verbatim>\<open>weights[i]\<close> for the product
  (in this order) and \<^verbatim>\<open>weights[i]\<close> again for the total.
\<close>

function accumulate ::
  "addr \<Rightarrow> addr \<Rightarrow> 'a::len word \<Rightarrow> 'a word \<Rightarrow> f32 \<times> f32 \<Rightarrow> state \<Rightarrow> (error + f32 \<times> f32) \<times> state"
where
  "accumulate factors weights len i (weightedSum, weightTotal) s =
     (if i < len then
        (case load factors (unat i) s of
           (Inl e, s1) \<Rightarrow> (Inl e, s1)
         | (Inr f, s1) \<Rightarrow>
        (case load weights (unat i) s1 of
           (Inl e, s2) \<Rightarrow> (Inl e, s2)
         | (Inr w, s2) \<Rightarrow>
        (case load weights (unat i) s2 of
           (Inl e, s3) \<Rightarrow> (Inl e, s3)
         | (Inr w', s3) \<Rightarrow>
             accumulate factors weights len (i + 1)
               (fadd weightedSum (fmul f w), fadd weightTotal w') s3)))
      else (Inr (weightedSum, weightTotal), s))"
  by pat_completeness auto

termination
  by (relation "measure (\<lambda>(factors, weights, len, i, acc, s). unat len - unat i)")
     (auto simp: unat_succ_less word_less_nat_alt)

declare accumulate.simps [simp del]

definition CalculateUtility :: "addr \<Rightarrow> addr \<Rightarrow> 'a::len word \<Rightarrow> state \<Rightarrow> (error + f32) \<times> state" where
  "CalculateUtility factors weights len s =
     (if factors = nullptr \<or> weights = nullptr \<or> len = 0 then (Inl InvalidInput, s)
      else
        (case accumulate factors weights len 0 (zero_f32, zero_f32) s of
           (Inl e, s') \<Rightarrow> (Inl e, s')
         | (Inr (weightedSum, weightTotal), s') \<Rightarrow>
             if feq weightTotal zero_f32 then (Inr zero_f32, s')
             else (Inr (fdiv weightedSum weightTotal), s')))"

section \<open>Vocabulary of the specification\<close>

text \<open>The sequence \<open>xs\<close> lies in the store from address \<open>p\<close> on; the \<open>n\<close> cells from
  \<open>p\<close> on are allocated.\<close>

definition array_at :: "state \<Rightarrow> addr \<Rightarrow> f32 list \<Rightarrow> bool" where
  "array_at s p xs = (\<forall>i < length xs. mem s (p + i) = Some (xs ! i))"

definition allocated :: "state \<Rightarrow> addr \<Rightarrow> nat \<Rightarrow> bool" where
  "allocated s p n = (\<forall>i < n. mem s (p + i) \<noteq> None)"

text \<open>The reads of the iterations \<open>i, \<dots>, n - 1\<close> of the loop, in program order.\<close>

definition access_trace :: "addr \<Rightarrow> addr \<Rightarrow> nat \<Rightarrow> nat \<Rightarrow> (addr \<times> nat) list" where
  "access_trace factors weights i n =
     concat (map (\<lambda>j. [(factors, j), (weights, j), (weights, j)]) [i..<n])"

text \<open>The two sums of the specification, accumulated from the left in single precision,
  starting from \<^verbatim>\<open>0.0f\<close>.\<close>

definition weighted_sum :: "f32 list \<Rightarrow> f32 list \<Rightarrow> f32" where
  "weighted_sum F W = foldl fadd zero_f32 (map2 fmul F W)"

definition weight_total :: "f32 list \<Rightarrow> f32" where
  "weight_total W = foldl fadd zero_f32 W"

text \<open>
  For the claims about the value of the score: whether a value is finite, the value of a
  finite one as an integer number of units of \<open>2^-149\<close>, the comparison \<^verbatim>\<open><=\<close>, and what it
  means that a product, a sum or a whole run of the loop has no rounding error.
\<close>

fun is_finite :: "f32 \<Rightarrow> bool" where
  "is_finite (Finite s k) = True"
| "is_finite x = False"

fun units :: "f32 \<Rightarrow> int" where
  "units (Finite s k) = with_sign s k"
| "units x = 0"

definition exact_mul :: "f32 \<Rightarrow> f32 \<Rightarrow> bool" where
  "exact_mul x y = (is_finite (fmul x y) \<and> units (fmul x y) * 2 ^ 149 = units x * units y)"

definition exact_add :: "f32 \<Rightarrow> f32 \<Rightarrow> bool" where
  "exact_add x y = (is_finite (fadd x y) \<and> units (fadd x y) = units x + units y)"

fun exact_run :: "f32 \<times> f32 \<Rightarrow> f32 list \<Rightarrow> f32 list \<Rightarrow> bool" where
  "exact_run (a, b) (f # F) (w # W) =
     (exact_mul f w \<and> exact_add a (fmul f w) \<and> exact_add b w \<and>
      exact_run (fadd a (fmul f w), fadd b w) F W)"
| "exact_run (a, b) F W = True"

fun fle :: "f32 \<Rightarrow> f32 \<Rightarrow> bool" where
  "fle (Finite s k) (Finite t l) = (with_sign s k \<le> with_sign t l)"
| "fle (Finite s k) (Infinity t) = (\<not> t)"
| "fle (Infinity s) (Finite t l) = s"
| "fle (Infinity s) (Infinity t) = (s \<or> \<not> t)"
| "fle x y = False"

text \<open>The exact sums \<open>\<Sum> F[i] * W[i]\<close> (in units of \<open>2^-298\<close>) and \<open>\<Sum> W[i]\<close> (in units of
  \<open>2^-149\<close>), the exact quotient \<open>P / Q\<close> units rounded once to single precision, and the
  arithmetic mean of a sequence, computed exactly and rounded once.\<close>

definition dot_units :: "f32 list \<Rightarrow> f32 list \<Rightarrow> int" where
  "dot_units F W = sum_list (map2 (\<lambda>f w. units f * units w) F W)"

definition sum_units :: "f32 list \<Rightarrow> int" where
  "sum_units W = sum_list (map units W)"

definition round_ratio :: "int \<Rightarrow> int \<Rightarrow> f32" where
  "round_ratio P Q = round_f32 ((P < 0) \<noteq> (Q < 0)) (nat \<bar>P\<bar>) (nat \<bar>Q\<bar>)"

definition mean_f32 :: "f32 list \<Rightarrow> f32" where
  "mean_f32 F = round_ratio (sum_units F) (int (length F))"

text \<open>A store for examples: the factors at address 100, the weights at address 200.\<close>

definition place :: "addr \<Rightarrow> f32 list \<Rightarrow> (addr \<Rightarrow> f32 option) \<Rightarrow> addr \<Rightarrow> f32 option" where
  "place p xs m = (\<lambda>a. if p \<le> a \<and> a < p + length xs then Some (xs ! (a - p)) else m a)"

definition example_state :: "f32 list \<Rightarrow> f32 list \<Rightarrow> state" where
  "example_state F W = \<lparr>mem = place 100 F (place 200 W (\<lambda>a. None)), reads = []\<rparr>"

section \<open>The loop\<close>

lemma accumulate_exit:
  "\<not> i < len \<Longrightarrow> accumulate factors weights len i (a, b) s = (Inr (a, b), s)"
  by (simp add: accumulate.simps [of _ _ len i])

lemma accumulate_step:
  "i < len \<Longrightarrow> accumulate factors weights len i (a, b) s =
     (case mem s (factors + unat i) of
        None \<Rightarrow> (Inl AccessViolation, s)
      | Some f \<Rightarrow>
          (case mem s (weights + unat i) of
             None \<Rightarrow> (Inl AccessViolation, s\<lparr>reads := reads s @ [(factors, unat i)]\<rparr>)
           | Some w \<Rightarrow>
               accumulate factors weights len (i + 1) (fadd a (fmul f w), fadd b w)
                 (s\<lparr>reads := reads s @ [(factors, unat i), (weights, unat i), (weights, unat i)]\<rparr>)))"
  by (simp add: accumulate.simps [of _ _ len i] load_def split: option.splits)

lemma array_at_reads [simp]: "array_at (s\<lparr>reads := r\<rparr>) p xs = array_at s p xs"
  by (simp add: array_at_def)

lemma array_at_allocated:
  "allocated s p n \<Longrightarrow> array_at s p (map (\<lambda>i. the (mem s (p + i))) [0..<n])"
  by (auto simp: allocated_def array_at_def)

lemma access_trace_step:
  "i < n \<Longrightarrow> access_trace f w i n = [(f, i), (w, i), (w, i)] @ access_trace f w (Suc i) n"
  by (simp add: access_trace_def upt_conv_Cons)

lemma access_trace_done: "n \<le> i \<Longrightarrow> access_trace f w i n = []"
  by (simp add: access_trace_def)

lemma access_trace_in_bounds:
  "(p, j) \<in> set (access_trace factors weights i n) \<Longrightarrow>
     (p = factors \<or> p = weights) \<and> i \<le> j \<and> j < n"
  by (auto simp: access_trace_def)

text \<open>On arrays that hold the sequences \<open>F\<close> and \<open>W\<close> the loop returns the two left folds
  and reads every index once, in order.\<close>

lemma accumulate_run:
  assumes "array_at s factors F" and "array_at s weights W"
    and "length F = unat len" and "length W = unat len"
  shows "accumulate factors weights len i (a, b) s =
           (Inr (foldl fadd a (map2 fmul (drop (unat i) F) (drop (unat i) W)),
                 foldl fadd b (drop (unat i) W)),
            s\<lparr>reads := reads s @ access_trace factors weights (unat i) (unat len)\<rparr>)"
  using assms
proof (induction "unat len - unat i" arbitrary: i a b s)
  case 0
  then have "\<not> i < len" by (simp add: word_less_nat_alt)
  with 0 show ?case
    by (simp add: accumulate_exit access_trace_done word_less_nat_alt)
next
  case (Suc d)
  then have lt: "i < len" by (simp add: word_less_nat_alt)
  then have ui: "unat i < unat len" by (simp add: word_less_nat_alt)
  have su: "unat (i + 1) = Suc (unat i)" using lt by (rule unat_succ_less)
  let ?s3 = "s\<lparr>reads := reads s @ [(factors, unat i), (weights, unat i), (weights, unat i)]\<rparr>"
  have d: "d = unat len - unat (i + 1)" using Suc.hyps(2) su by simp
  have IH: "accumulate factors weights len (i + 1) (a', b') ?s3 =
           (Inr (foldl fadd a' (map2 fmul (drop (unat (i + 1)) F) (drop (unat (i + 1)) W)),
                 foldl fadd b' (drop (unat (i + 1)) W)),
            ?s3\<lparr>reads := reads ?s3 @ access_trace factors weights (unat (i + 1)) (unat len)\<rparr>)"
    for a' b'
    using Suc.hyps(1) [OF d, of ?s3 a' b'] Suc.prems by simp
  have F: "drop (unat i) F = F ! unat i # drop (Suc (unat i)) F"
    using ui Suc.prems by (simp add: Cons_nth_drop_Suc)
  have W: "drop (unat i) W = W ! unat i # drop (Suc (unat i)) W"
    using ui Suc.prems by (simp add: Cons_nth_drop_Suc)
  have mf: "mem s (factors + unat i) = Some (F ! unat i)"
    and mw: "mem s (weights + unat i) = Some (W ! unat i)"
    using ui Suc.prems by (simp_all add: array_at_def)
  show ?case
    by (simp add: accumulate_step [OF lt] mf mw IH su F W access_trace_step [OF ui])
qed

lemma accumulate_allocated:
  assumes "allocated s factors (unat len)" and "allocated s weights (unat len)"
  shows "\<exists>acc. accumulate factors weights len 0 (a, b) s =
           (Inr acc, s\<lparr>reads := reads s @ access_trace factors weights 0 (unat len)\<rparr>)"
  using accumulate_run [where i = 0 and a = a and b = b and len = len,
      OF array_at_allocated [OF assms(1)] array_at_allocated [OF assms(2)]]
  by simp

text \<open>The loop never writes, and never raises \<open>InvalidInput\<close>.\<close>

lemma accumulate_mem: "mem (snd (accumulate factors weights len i (a, b) s)) = mem s"
proof (induction "unat len - unat i" arbitrary: i a b s)
  case 0
  then have "\<not> i < len" by (simp add: word_less_nat_alt)
  then show ?case by (simp add: accumulate_exit)
next
  case (Suc d)
  then have lt: "i < len" by (simp add: word_less_nat_alt)
  have "d = unat len - unat (i + 1)"
    using Suc.hyps(2) unat_succ_less [OF lt] by simp
  from Suc.hyps(1) [OF this] show ?case
    by (simp add: accumulate_step [OF lt] split: option.splits)
qed

lemma accumulate_not_InvalidInput:
  "fst (accumulate factors weights len i (a, b) s) \<noteq> Inl InvalidInput"
proof (induction "unat len - unat i" arbitrary: i a b s)
  case 0
  then have "\<not> i < len" by (simp add: word_less_nat_alt)
  then show ?case by (simp add: accumulate_exit)
next
  case (Suc d)
  then have lt: "i < len" by (simp add: word_less_nat_alt)
  have "d = unat len - unat (i + 1)"
    using Suc.hyps(2) unat_succ_less [OF lt] by simp
  from Suc.hyps(1) [OF this] show ?case
    by (simp add: accumulate_step [OF lt] split: option.splits)
qed

text \<open>The loop makes at most three reads for each index that is left.\<close>

lemma accumulate_reads_bound:
  "\<exists>new. reads (snd (accumulate factors weights len i (a, b) s)) = reads s @ new \<and>
          length new \<le> 3 * (unat len - unat i)"
proof (induction "unat len - unat i" arbitrary: i a b s)
  case 0
  then have "\<not> i < len" by (simp add: word_less_nat_alt)
  then show ?case by (simp add: accumulate_exit)
next
  case (Suc d)
  then have lt: "i < len" by (simp add: word_less_nat_alt)
  have d: "d = unat len - unat (i + 1)"
    using Suc.hyps(2) unat_succ_less [OF lt] by simp
  show ?case
  proof (cases "mem s (factors + unat i)")
    case None
    then show ?thesis by (simp add: accumulate_step [OF lt])
  next
    case f: (Some x)
    show ?thesis
    proof (cases "mem s (weights + unat i)")
      case None
      then show ?thesis using f Suc.hyps(2) by (simp add: accumulate_step [OF lt])
    next
      case (Some y)
      let ?s3 = "s\<lparr>reads := reads s @ [(factors, unat i), (weights, unat i), (weights, unat i)]\<rparr>"
      obtain new where new: "reads (snd (accumulate factors weights len (i + 1)
            (fadd a (fmul x y), fadd b y) ?s3)) = reads ?s3 @ new"
        and le: "length new \<le> 3 * d"
        using Suc.hyps(1) [OF d, of "fadd a (fmul x y)" "fadd b y" ?s3] d by auto
      have "reads (snd (accumulate factors weights len i (a, b) s)) =
          reads s @ ([(factors, unat i), (weights, unat i), (weights, unat i)] @ new)"
        using f Some new by (simp add: accumulate_step [OF lt])
      moreover have "length ([(factors, unat i), (weights, unat i), (weights, unat i)] @ new)
          \<le> 3 * (unat len - unat i)"
        using le Suc.hyps(2) by simp
      ultimately show ?thesis by blast
    qed
  qed
qed

lemma CalculateUtility_raises:
  "fst (CalculateUtility factors weights len s) = Inl InvalidInput
     \<longleftrightarrow> factors = nullptr \<or> weights = nullptr \<or> len = 0"
  using accumulate_not_InvalidInput [of factors weights len 0 zero_f32 zero_f32 s]
  by (auto simp: CalculateUtility_def split: prod.splits sum.splits)

text \<open>Two stores that agree on the cells of the two arrays give the same outcome.\<close>

lemma accumulate_same_cells:
  assumes "\<forall>j < unat len. mem s (factors + j) = mem s' (factors + j)"
    and "\<forall>j < unat len. mem s (weights + j) = mem s' (weights + j)"
  shows "fst (accumulate factors weights len i (a, b) s) =
         fst (accumulate factors weights len i (a, b) s')"
  using assms
proof (induction "unat len - unat i" arbitrary: i a b s s')
  case 0
  then have "\<not> i < len" by (simp add: word_less_nat_alt)
  then show ?case by (simp add: accumulate_exit)
next
  case (Suc d)
  then have lt: "i < len" by (simp add: word_less_nat_alt)
  then have ui: "unat i < unat len" by (simp add: word_less_nat_alt)
  have d: "d = unat len - unat (i + 1)"
    using Suc.hyps(2) unat_succ_less [OF lt] by simp
  have f: "mem s (factors + unat i) = mem s' (factors + unat i)"
    and w: "mem s (weights + unat i) = mem s' (weights + unat i)"
    using Suc.prems ui by auto
  show ?case
  proof (cases "mem s' (factors + unat i)")
    case None
    then show ?thesis using f by (simp add: accumulate_step [OF lt])
  next
    case (Some x)
    show ?thesis
    proof (cases "mem s' (weights + unat i)")
      case None
      then show ?thesis using f w Some by (simp add: accumulate_step [OF lt])
    next
      case (Some y)
      then show ?thesis
        using f w \<open>mem s' (factors + unat i) = Some x\<close> Suc.prems
        by (simp add: accumulate_step [OF lt]) (rule Suc.hyps(1) [OF d], simp_all)
    qed
  qed
qed

section \<open>Examples\<close>

lemma example_state_factors: "array_at (example_state F W) 100 F"
  by (simp add: array_at_def example_state_def place_def)

lemma example_state_weights: "length F \<le> 100 \<Longrightarrow> array_at (example_state F W) 200 W"
  by (simp add: array_at_def example_state_def place_def)

lemma example_state_allocated:
  "n \<le> length F \<Longrightarrow> n \<le> length W \<Longrightarrow> length F \<le> 100 \<Longrightarrow>
     allocated (example_state F W) 100 n \<and> allocated (example_state F W) 200 n"
  by (simp add: allocated_def example_state_def place_def)

lemma CalculateUtility_arrays:
  assumes "factors \<noteq> nullptr" and "weights \<noteq> nullptr"
    and "array_at s factors F" and "array_at s weights W"
    and "length F = unat len" and "length W = unat len" and "len \<noteq> 0"
  shows "fst (CalculateUtility factors weights len s) =
           Inr (if feq (weight_total W) zero_f32 then zero_f32
                else fdiv (weighted_sum F W) (weight_total W))"
  using assms accumulate_run [OF assms(3-6), of 0 zero_f32 zero_f32]
  by (simp add: CalculateUtility_def weighted_sum_def weight_total_def)

lemma example_run:
  assumes "length F = unat len" and "length W = unat len" and "len \<noteq> 0" and "length F \<le> 100"
  shows "fst (CalculateUtility 100 200 len (example_state F W)) =
           Inr (if feq (weight_total W) zero_f32 then zero_f32
                else fdiv (weighted_sum F W) (weight_total W))"
  using assms
  by (intro CalculateUtility_arrays example_state_factors example_state_weights)
     (simp_all add: nullptr_def)

lemmas f32_eval = f32_of_nat_def zero_f32_def round_f32_def round_magnitude_def
  round_nearest_even_def bitlen.simps
  with_sign_def weighted_sum_def weight_total_def

lemmas exact_eval = exact_mul_def exact_add_def representable_def f32_neg_def

text \<open>The values that occur in the examples below, as bit patterns.\<close>

lemma f32_of_bits_examples:
  "f32_of_bits 0x40A00000 = f32_of_nat 5"
  "f32_of_bits 0x40000000 = f32_of_nat 2"
  "f32_of_bits 0x40E00000 = f32_of_nat 7"
  "f32_of_bits 0x3EAAAAAB = fdiv (f32_of_nat 1) (f32_of_nat 3)"
  "f32_of_bits 0x40E00001 = Finite False (14680065 * 2 ^ 128)"
  "f32_of_bits 0x4B7FFFFF = f32_of_nat 16777215"
  "f32_of_bits 0x4B7FFFFE = f32_of_nat 16777214"
  "f32_of_bits 0x4AB71B03 = Finite False (12000003 * 2 ^ 148)"
  "f32_of_bits 0x4AB71B02 = f32_of_nat 6000001"
  "f32_of_bits 0xC0800000 = f32_neg (f32_of_nat 4)"
  "f32_of_bits 0x4B371B00 = f32_of_nat 12000000"
  "f32_of_bits 0x40400000 = f32_of_nat 3"
  "f32_of_bits 0x3F800000 = f32_of_nat 1"
  "f32_of_bits 0x00000000 = zero_f32"
  "f32_of_bits 0x7F800000 = Infinity False"
  "f32_of_bits 0x7FC00000 = NaN"
  by (simp_all add: f32_of_bits_def f32_eval f32_neg_def
      drop_bit_eq_div take_bit_eq_mod unat_div unat_mod)

section \<open>The result of a call\<close>

text \<open>
  Claim C1. For non-null sequences \<open>F\<close> and \<open>W\<close> of the same length \<open>n \<ge> 1\<close> whose
  weight total does not compare equal to zero, the call returns the weighted sum divided
  by the weight total, both sums accumulated from the left in single precision.
\<close>

theorem CalculateUtility_normalized_weighted_sum:
  assumes "factors \<noteq> nullptr" and "weights \<noteq> nullptr"
    and "array_at s factors F" and "array_at s weights W"
    and "length F = unat len" and "length W = unat len" and "1 \<le> unat len"
    and "\<not> feq (weight_total W) zero_f32"
  shows "fst (CalculateUtility factors weights len s) =
           Inr (fdiv (weighted_sum F W) (weight_total W))"
proof -
  have "len \<noteq> 0" using assms(7) by auto
  then show ?thesis
    using assms accumulate_run [OF assms(3-6), of 0 zero_f32 zero_f32]
    by (simp add: CalculateUtility_def weighted_sum_def weight_total_def)
qed

theorem CalculateUtility_normalized_weighted_sum_witness:
  "fst (CalculateUtility 100 200 (3 :: 64 word)
          (example_state [f32_of_nat 1, f32_of_nat 2, f32_of_nat 3]
                         [f32_of_nat 1, f32_of_nat 1, f32_of_nat 1])) = Inr (f32_of_nat 2)"
  using CalculateUtility_normalized_weighted_sum
    [of 100 200 "example_state [f32_of_nat 1, f32_of_nat 2, f32_of_nat 3]
                         [f32_of_nat 1, f32_of_nat 1, f32_of_nat 1]"
        "[f32_of_nat 1, f32_of_nat 2, f32_of_nat 3]" "[f32_of_nat 1, f32_of_nat 1, f32_of_nat 1]"
        "3 :: 64 word", OF _ _ example_state_factors example_state_weights]
  by (simp add: nullptr_def f32_eval)

text \<open>A sum of zeros is a zero.\<close>

lemma fadd_zero_zero: "feq a zero_f32 \<Longrightarrow> feq w zero_f32 \<Longrightarrow> feq (fadd a w) zero_f32"
  by (cases a; cases w) (auto simp: zero_f32_def with_sign_def)

lemma foldl_fadd_zero:
  "feq a zero_f32 \<Longrightarrow> \<forall>w \<in> set W. feq w zero_f32 \<Longrightarrow> feq (foldl fadd a W) zero_f32"
  by (induction W arbitrary: a) (auto simp: fadd_zero_zero)

text \<open>
  Claim C2. For non-null sequences of length \<open>n \<ge> 1\<close>, a weight total that compares
  equal to zero makes the call return \<^verbatim>\<open>0.0f\<close>, not an error; so it does when every
  weight is a zero (of either sign), whatever the factors are.
\<close>

theorem CalculateUtility_zero_weight_total:
  assumes "factors \<noteq> nullptr" and "weights \<noteq> nullptr"
    and "array_at s factors F" and "array_at s weights W"
    and "length F = unat len" and "length W = unat len" and "1 \<le> unat len"
  shows "(feq (weight_total W) zero_f32 \<longrightarrow>
            fst (CalculateUtility factors weights len s) = Inr zero_f32) \<and>
         ((\<forall>w \<in> set W. feq w zero_f32) \<longrightarrow>
            fst (CalculateUtility factors weights len s) = Inr zero_f32)"
proof -
  have "len \<noteq> 0" using assms(7) by auto
  then have run: "feq (weight_total W) zero_f32 \<Longrightarrow>
      fst (CalculateUtility factors weights len s) = Inr zero_f32"
    using assms accumulate_run [OF assms(3-6), of 0 zero_f32 zero_f32]
    by (simp add: CalculateUtility_def weight_total_def)
  have "feq (weight_total W) zero_f32" if "\<forall>w \<in> set W. feq w zero_f32"
    unfolding weight_total_def using that
    by (intro foldl_fadd_zero) (simp_all add: zero_f32_def)
  with run show ?thesis by blast
qed

theorem CalculateUtility_zero_weight_total_witness:
  "feq (weight_total [zero_f32, Finite True 0]) zero_f32 \<and>
   fst (CalculateUtility 100 200 (2 :: 64 word)
          (example_state [f32_of_nat 5, NaN] [zero_f32, Finite True 0])) = Inr zero_f32"
  using CalculateUtility_zero_weight_total
    [of 100 200 "example_state [f32_of_nat 5, NaN] [zero_f32, Finite True 0]"
        "[f32_of_nat 5, NaN]" "[zero_f32, Finite True 0]"
        "2 :: 64 word", OF _ _ example_state_factors example_state_weights]
  by (simp add: nullptr_def f32_eval)

section \<open>Invalid input\<close>

text \<open>
  Claim C3. The call raises \<open>InvalidInput\<close> exactly when the factor pointer is null, the
  weight pointer is null or the length is 0; then the state is the one the call started
  in, so no element has been read and there is no partial result.
\<close>

theorem CalculateUtility_InvalidInput_iff:
  "(fst (CalculateUtility factors weights len s) = Inl InvalidInput
      \<longleftrightarrow> factors = nullptr \<or> weights = nullptr \<or> len = 0) \<and>
   (factors = nullptr \<or> weights = nullptr \<or> len = 0
      \<longrightarrow> CalculateUtility factors weights len s = (Inl InvalidInput, s))"
  using CalculateUtility_raises [of factors weights len s]
  by (auto simp: CalculateUtility_def)

theorem CalculateUtility_InvalidInput_iff_witness:
  "CalculateUtility 100 nullptr (3 :: 64 word) (example_state [f32_of_nat 1] [f32_of_nat 1]) =
     (Inl InvalidInput, example_state [f32_of_nat 1] [f32_of_nat 1]) \<and>
   CalculateUtility 100 200 (0 :: 64 word) (example_state [f32_of_nat 1] [f32_of_nat 1]) =
     (Inl InvalidInput, example_state [f32_of_nat 1] [f32_of_nat 1]) \<and>
   fst (CalculateUtility 100 200 (1 :: 64 word) (example_state [f32_of_nat 1] [f32_of_nat 1]))
     \<noteq> Inl InvalidInput"
  using
    CalculateUtility_InvalidInput_iff
      [of 100 nullptr "3 :: 64 word" "example_state [f32_of_nat 1] [f32_of_nat 1]"]
    CalculateUtility_InvalidInput_iff
      [of 100 200 "0 :: 64 word" "example_state [f32_of_nat 1] [f32_of_nat 1]"]
    CalculateUtility_InvalidInput_iff
      [of 100 200 "1 :: 64 word" "example_state [f32_of_nat 1] [f32_of_nat 1]"]
  by (simp add: nullptr_def)

section \<open>Determinism and effects\<close>

text \<open>
  Claim C6. Two calls with the same pointers and the same length, in states that hold the
  same values in the cells of the two arrays, have the same outcome: the result depends
  on nothing but the inputs. On arrays that hold \<open>F\<close> and \<open>W\<close> it is the value of the two
  sums folded from the left, in the order of the indices.
\<close>

theorem CalculateUtility_deterministic:
  assumes "\<forall>j < unat len. mem s (factors + j) = mem s' (factors + j)"
    and "\<forall>j < unat len. mem s (weights + j) = mem s' (weights + j)"
  shows "fst (CalculateUtility factors weights len s) =
         fst (CalculateUtility factors weights len s') \<and>
         (factors \<noteq> nullptr \<and> weights \<noteq> nullptr \<and> len \<noteq> 0 \<and>
          array_at s factors F \<and> array_at s weights W \<and>
          length F = unat len \<and> length W = unat len \<longrightarrow>
          fst (CalculateUtility factors weights len s) =
            Inr (if feq (foldl fadd zero_f32 W) zero_f32 then zero_f32
                 else fdiv (foldl fadd zero_f32 (map2 fmul F W)) (foldl fadd zero_f32 W)))"
proof -
  have "fst (accumulate factors weights len 0 (zero_f32, zero_f32) s) =
        fst (accumulate factors weights len 0 (zero_f32, zero_f32) s')"
    using assms by (rule accumulate_same_cells)
  then have "fst (CalculateUtility factors weights len s) =
      fst (CalculateUtility factors weights len s')"
    by (auto simp: CalculateUtility_def split: prod.splits sum.splits)
  then show ?thesis
    using CalculateUtility_arrays [of factors weights s F W len]
    by (simp add: weighted_sum_def weight_total_def)
qed

theorem CalculateUtility_deterministic_witness:
  "fst (CalculateUtility 100 200 (2 :: 64 word)
     (example_state [f32_of_nat 1, f32_of_nat 6] [f32_of_nat 3, f32_of_nat 3])) =
   fst (CalculateUtility 100 200 (2 :: 64 word)
     ((example_state [f32_of_nat 1, f32_of_nat 6, NaN] [f32_of_nat 3, f32_of_nat 3])
        \<lparr>reads := [(7, 7)]\<rparr>)) \<and>
   fst (CalculateUtility 100 200 (2 :: 64 word)
     (example_state [f32_of_nat 1, f32_of_nat 6] [f32_of_nat 3, f32_of_nat 3])) =
     Inr (Finite False (7 * 2 ^ 148))"
proof -
  let ?F = "[f32_of_nat 1, f32_of_nat 6]"
  let ?W = "[f32_of_nat 3, f32_of_nat 3]"
  let ?s = "example_state ?F ?W"
  let ?s' = "(example_state [f32_of_nat 1, f32_of_nat 6, NaN] ?W)\<lparr>reads := [(7, 7)]\<rparr>"
  have f: "\<forall>j < unat (2 :: 64 word). mem ?s (100 + j) = mem ?s' (100 + j)"
    by (simp add: example_state_def place_def nth_Cons')
  have w: "\<forall>j < unat (2 :: 64 word). mem ?s (200 + j) = mem ?s' (200 + j)"
    by (simp add: example_state_def place_def nth_Cons')
  have h: "(100 :: addr) \<noteq> nullptr" "(200 :: addr) \<noteq> nullptr" "(2 :: 64 word) \<noteq> 0"
    "length ?F = unat (2 :: 64 word)" "length ?W = unat (2 :: 64 word)"
    by (simp_all add: nullptr_def)
  have v: "(if feq (foldl fadd zero_f32 ?W) zero_f32 then zero_f32
            else fdiv (foldl fadd zero_f32 (map2 fmul ?F ?W)) (foldl fadd zero_f32 ?W)) =
           Finite False (7 * 2 ^ 148)"
    by (simp add: f32_eval)
  note both = CalculateUtility_deterministic [OF f w, of ?F ?W]
  have d: "fst (CalculateUtility 100 200 (2 :: 64 word) ?s) =
      fst (CalculateUtility 100 200 (2 :: 64 word) ?s')"
    using both by (rule conjunct1)
  have "fst (CalculateUtility 100 200 (2 :: 64 word) ?s) =
      Inr (if feq (foldl fadd zero_f32 ?W) zero_f32 then zero_f32
           else fdiv (foldl fadd zero_f32 (map2 fmul ?F ?W)) (foldl fadd zero_f32 ?W))"
    using both h example_state_factors [of ?F ?W] example_state_weights [of ?F ?W]
    by fastforce
  then have r: "fst (CalculateUtility 100 200 (2 :: 64 word) ?s) = Inr (Finite False (7 * 2 ^ 148))"
    unfolding v .
  show ?thesis
    using d r by (rule conjI)
qed

text \<open>
  Claim C8. The call has no side effect: the store after the call is the store before it,
  whatever the outcome. The function has no state of its own.
\<close>

theorem CalculateUtility_no_side_effects:
  "mem (snd (CalculateUtility factors weights len s)) = mem s"
  using accumulate_mem [of factors weights len 0 zero_f32 zero_f32 s]
  by (auto simp: CalculateUtility_def split: prod.splits sum.splits)

theorem CalculateUtility_no_side_effects_witness:
  "mem (snd (CalculateUtility 100 200 (1 :: 64 word)
          (example_state [f32_of_nat 5] [f32_of_nat 2]))) =
   mem (example_state [f32_of_nat 5] [f32_of_nat 2])"
  using CalculateUtility_no_side_effects
    [of 100 200 "1 :: 64 word" "example_state [f32_of_nat 5] [f32_of_nat 2]"]
  by simp

section \<open>Memory safety and termination\<close>

text \<open>
  Claim C9. When both pointers are non-null and each points to at least \<open>length\<close>
  allocated cells, the call does not fault, and every read it makes is of one of the two
  arrays at an index below \<open>length\<close>, which is an allocated cell.
\<close>

theorem CalculateUtility_reads_in_bounds:
  assumes "factors \<noteq> nullptr" and "weights \<noteq> nullptr"
    and "allocated s factors (unat len)" and "allocated s weights (unat len)"
  shows "fst (CalculateUtility factors weights len s) \<noteq> Inl AccessViolation \<and>
         (\<exists>new. reads (snd (CalculateUtility factors weights len s)) = reads s @ new \<and>
            (\<forall>(p, i) \<in> set new.
               (p = factors \<or> p = weights) \<and> i < unat len \<and> mem s (p + i) \<noteq> None))"
proof (cases "len = 0")
  case True
  then show ?thesis by (simp add: CalculateUtility_def)
next
  case False
  obtain acc where run: "accumulate factors weights len 0 (zero_f32, zero_f32) s =
      (Inr acc, s\<lparr>reads := reads s @ access_trace factors weights 0 (unat len)\<rparr>)"
    using accumulate_allocated [OF assms(3,4)] by blast
  have ok: "fst (CalculateUtility factors weights len s) \<noteq> Inl AccessViolation"
    using assms(1,2) False run by (simp add: CalculateUtility_def split: prod.splits)
  have tr: "reads (snd (CalculateUtility factors weights len s)) =
      reads s @ access_trace factors weights 0 (unat len)"
    using assms(1,2) False run by (simp add: CalculateUtility_def split: prod.splits)
  have "\<forall>(p, i) \<in> set (access_trace factors weights 0 (unat len)).
      (p = factors \<or> p = weights) \<and> i < unat len \<and> mem s (p + i) \<noteq> None"
    using assms(3,4) by (auto dest!: access_trace_in_bounds simp: allocated_def)
  with ok tr show ?thesis by blast
qed

theorem CalculateUtility_reads_in_bounds_witness:
  "allocated (example_state [f32_of_nat 5, f32_of_nat 1]
                [f32_of_nat 2, f32_of_nat 1, f32_of_nat 7]) 100 2 \<and>
   allocated (example_state [f32_of_nat 5, f32_of_nat 1]
                [f32_of_nat 2, f32_of_nat 1, f32_of_nat 7]) 200 2 \<and>
   fst (CalculateUtility 100 200 (2 :: 64 word)
     (example_state [f32_of_nat 5, f32_of_nat 1] [f32_of_nat 2, f32_of_nat 1, f32_of_nat 7]))
     \<noteq> Inl AccessViolation"
  using CalculateUtility_reads_in_bounds [of 100 200
     "example_state [f32_of_nat 5, f32_of_nat 1] [f32_of_nat 2, f32_of_nat 1, f32_of_nat 7]"
     "2 :: 64 word"]
    example_state_allocated
      [of 2 "[f32_of_nat 5, f32_of_nat 1]" "[f32_of_nat 2, f32_of_nat 1, f32_of_nat 7]"]
  by (simp add: nullptr_def)

text \<open>
  Claim C10, as amended. The loop is a total function (its termination is proved where it
  is defined, the distance of \<open>i\<close> to \<open>length\<close> decreasing), and every call makes at most the
  reads of \<open>length\<close> iterations. When the pointers are non-null and the length is not 0
  only if each array has at least \<open>length\<close> allocated cells, the call either raises
  \<open>InvalidInput\<close>, having read nothing, or returns a score after exactly \<open>length\<close>
  iterations, one for each index from 0 in increasing order. (Without the condition on
  the arrays there is a third outcome: with one factor cell and \<open>length = 2\<close> the call
  faults in its second iteration.)
\<close>

theorem CalculateUtility_terminates:
  "length (reads (snd (CalculateUtility factors weights len s)))
     \<le> length (reads s) + 3 * unat len \<and>
   ((factors \<noteq> nullptr \<and> weights \<noteq> nullptr \<and> len \<noteq> 0 \<longrightarrow>
       allocated s factors (unat len) \<and> allocated s weights (unat len)) \<longrightarrow>
    (fst (CalculateUtility factors weights len s) = Inl InvalidInput \<and>
       reads (snd (CalculateUtility factors weights len s)) = reads s) \<or>
    ((\<exists>score. fst (CalculateUtility factors weights len s) = Inr score) \<and>
       reads (snd (CalculateUtility factors weights len s)) =
         reads s @
         concat (map (\<lambda>i. [(factors, i), (weights, i), (weights, i)]) [0..<unat len])))"
proof (intro conjI impI)
  obtain new where "reads (snd (accumulate factors weights len 0 (zero_f32, zero_f32) s)) =
      reads s @ new" and "length new \<le> 3 * unat len"
    using accumulate_reads_bound [of factors weights len 0 zero_f32 zero_f32 s] by auto
  then show "length (reads (snd (CalculateUtility factors weights len s)))
     \<le> length (reads s) + 3 * unat len"
    by (auto simp: CalculateUtility_def split: prod.splits sum.splits)
next
  assume pre: "factors \<noteq> nullptr \<and> weights \<noteq> nullptr \<and> len \<noteq> 0 \<longrightarrow>
       allocated s factors (unat len) \<and> allocated s weights (unat len)"
  show "(fst (CalculateUtility factors weights len s) = Inl InvalidInput \<and>
       reads (snd (CalculateUtility factors weights len s)) = reads s) \<or>
    ((\<exists>score. fst (CalculateUtility factors weights len s) = Inr score) \<and>
       reads (snd (CalculateUtility factors weights len s)) =
         reads s @
         concat (map (\<lambda>i. [(factors, i), (weights, i), (weights, i)]) [0..<unat len]))"
  proof (cases "factors = nullptr \<or> weights = nullptr \<or> len = 0")
    case True
    then show ?thesis by (auto simp: CalculateUtility_def)
  next
    case False
    with pre have "allocated s factors (unat len)" "allocated s weights (unat len)" by auto
    from accumulate_allocated [OF this]
    obtain acc where "accumulate factors weights len 0 (zero_f32, zero_f32) s =
        (Inr acc, s\<lparr>reads := reads s @ access_trace factors weights 0 (unat len)\<rparr>)"
      by blast
    with False show ?thesis
      by (simp add: CalculateUtility_def access_trace_def split: prod.splits)
  qed
qed

theorem CalculateUtility_terminates_witness:
  "(\<exists>score. fst (CalculateUtility 100 200 (2 :: 64 word)
     (example_state [f32_of_nat 5, f32_of_nat 1] [f32_of_nat 2, f32_of_nat 1])) = Inr score) \<and>
   reads (snd (CalculateUtility 100 200 (2 :: 64 word)
     (example_state [f32_of_nat 5, f32_of_nat 1] [f32_of_nat 2, f32_of_nat 1]))) =
   [(100, 0), (200, 0), (200, 0), (100, 1), (200, 1), (200, 1)]"
proof -
  let ?s = "example_state [f32_of_nat 5, f32_of_nat 1] [f32_of_nat 2, f32_of_nat 1]"
  have a: "allocated ?s 100 (unat (2 :: 64 word)) \<and> allocated ?s 200 (unat (2 :: 64 word))"
    using example_state_allocated
      [of 2 "[f32_of_nat 5, f32_of_nat 1]" "[f32_of_nat 2, f32_of_nat 1]"]
    by simp
  have n: "fst (CalculateUtility 100 200 (2 :: 64 word) ?s) \<noteq> Inl InvalidInput"
    by (simp add: CalculateUtility_raises nullptr_def)
  have r: "reads ?s = []"
    by (simp add: example_state_def)
  show ?thesis
    using CalculateUtility_terminates [of 100 200 "2 :: 64 word" ?s] a n r
    by (simp add: upt_conv_Cons)
qed

theorem CalculateUtility_terminates_counterexample:
  "mem (example_state [f32_of_nat 5] [f32_of_nat 2, f32_of_nat 1]) 101 = None \<and>
   CalculateUtility 100 200 (2 :: 64 word)
     (example_state [f32_of_nat 5] [f32_of_nat 2, f32_of_nat 1]) =
   (Inl AccessViolation,
    (example_state [f32_of_nat 5] [f32_of_nat 2, f32_of_nat 1])
      \<lparr>reads := [(100, 0), (200, 0), (200, 0)]\<rparr>)"
  by (simp add: CalculateUtility_def nullptr_def accumulate_step example_state_def place_def)

section \<open>Rounding\<close>

text \<open>The bit length, rounding to the nearest integer, and rounding to 24 significant
  bits: exact on representable magnitudes, monotone against them, invariant under scaling
  of numerator and denominator, and with a representable result.\<close>

lemma bitlen_0 [simp]: "bitlen 0 = 0"
  by (simp add: bitlen.simps)

lemma bitlen_pos: "0 < n \<Longrightarrow> bitlen n = Suc (bitlen (n div 2))"
  by (subst bitlen.simps) simp

lemma bitlen_upper: "n < 2 ^ bitlen n"
proof (induction n rule: bitlen.induct)
  case (1 n)
  show ?case
  proof (cases "n = 0")
    case True
    then show ?thesis by simp
  next
    case False
    then have "n div 2 < 2 ^ bitlen (n div 2)" using 1 by simp
    then have "n < 2 * 2 ^ bitlen (n div 2)" by linarith
    then show ?thesis using False by (simp add: bitlen_pos)
  qed
qed

lemma bitlen_lower: "0 < n \<Longrightarrow> 2 ^ (bitlen n - 1) \<le> n"
proof (induction n rule: bitlen.induct)
  case (1 n)
  show ?case
  proof (cases "n div 2 = 0")
    case True
    then show ?thesis using "1.prems" by (simp add: bitlen_pos)
  next
    case False
    then have "2 ^ (bitlen (n div 2) - 1) \<le> n div 2" using 1 by simp
    moreover have "bitlen (n div 2) = Suc (bitlen (n div 2) - 1)"
      using False by (simp add: bitlen_pos)
    ultimately have "2 ^ bitlen (n div 2) \<le> 2 * (n div 2)"
      by (metis power_Suc mult_le_mono2)
    then have "2 ^ bitlen (n div 2) \<le> n" by linarith
    then show ?thesis using "1.prems" by (simp add: bitlen_pos)
  qed
qed

lemma bitlen_le: "n < 2 ^ b \<Longrightarrow> bitlen n \<le> b"
proof (rule ccontr)
  assume lt: "n < 2 ^ b" and "\<not> bitlen n \<le> b"
  then have b: "b \<le> bitlen n - 1" and "0 < bitlen n" by simp_all
  then have "0 < n" by (cases "n = 0") simp_all
  then have "2 ^ (bitlen n - 1) \<le> n" by (rule bitlen_lower)
  moreover have "(2::nat) ^ b \<le> 2 ^ (bitlen n - 1)" using b by (simp add: power_increasing)
  ultimately show False using lt by linarith
qed

lemma bitlen_mono: "m \<le> n \<Longrightarrow> bitlen m \<le> bitlen n"
  using bitlen_le [of m "bitlen n"] bitlen_upper [of n] by simp

text \<open>Every bit pattern decodes to a valid value.\<close>

lemma f32_of_bits_valid: "valid_f32 (f32_of_bits b)"
proof -
  define E where "E = unat (take_bit 8 (drop_bit 23 b))"
  define F where "F = unat (take_bit 23 b)"
  have F: "F < 2 ^ 23"
    unfolding F_def unsigned_take_bit_eq by (rule take_bit_nat_less_exp)
  have E: "E < 2 ^ 8"
    unfolding E_def unsigned_take_bit_eq by (rule take_bit_nat_less_exp)
  have sub: "representable F"
  proof -
    have "bitlen F \<le> 23" using F by (rule bitlen_le)
    then have "bitlen F - 24 = 0" by simp
    moreover have "F < 2 ^ 277"
      using F by (rule less_le_trans) simp
    ultimately show ?thesis by (simp add: representable_def)
  qed
  have norm: "representable ((2 ^ 23 + F) * 2 ^ (E - 1))" if "E \<noteq> 255"
  proof -
    let ?k = "(2 ^ 23 + F) * 2 ^ (E - 1)"
    have "2 ^ 23 + F < 2 ^ 24" using F by simp
    then have lt: "?k < 2 ^ 24 * 2 ^ (E - 1)" by simp
    then have "bitlen ?k \<le> 24 + (E - 1)"
      by (intro bitlen_le) (simp add: power_add)
    then have "bitlen ?k - 24 \<le> E - 1" by simp
    then have "(2::nat) ^ (bitlen ?k - 24) dvd 2 ^ (E - 1)"
      by (rule le_imp_power_dvd)
    then have d: "2 ^ (bitlen ?k - 24) dvd ?k"
      by (rule dvd_mult)
    have "E - 1 \<le> 253" using E that by simp
    then have "(2::nat) ^ (E - 1) \<le> 2 ^ 253"
      by (intro power_increasing) simp_all
    then have "(2::nat) ^ 24 * 2 ^ (E - 1) \<le> 2 ^ 24 * 2 ^ 253"
      by (rule mult_le_mono2)
    with lt have "?k < 2 ^ 24 * 2 ^ 253" by (rule less_le_trans)
    also have "(2::nat) ^ 24 * 2 ^ 253 = 2 ^ 277" by simp
    finally have "?k < 2 ^ 277" .
    then show ?thesis using d unfolding representable_def by (rule conjI)
  qed
  show ?thesis
    using sub norm by (simp add: f32_of_bits_def Let_def E_def F_def)
qed

lemma rne_lower: "N div D \<le> round_nearest_even N D"
  by (simp add: round_nearest_even_def Let_def)

lemma rne_upper: "round_nearest_even N D \<le> N div D + 1"
  by (simp add: round_nearest_even_def Let_def)

lemma rne_exact: "0 < D \<Longrightarrow> round_nearest_even (c * D) D = c"
  by (simp add: round_nearest_even_def Let_def)

lemma rne_ge: "0 < D \<Longrightarrow> c * D \<le> N \<Longrightarrow> c \<le> round_nearest_even N D"
proof -
  assume "0 < D" "c * D \<le> N"
  then have "c \<le> N div D" by (simp add: less_eq_div_iff_mult_less_eq)
  then show ?thesis using rne_lower [of N D] by simp
qed

lemma rne_le:
  assumes "0 < D" and "N \<le> c * D"
  shows "round_nearest_even N D \<le> c"
proof (cases "N = c * D")
  case True
  then show ?thesis using assms by (simp add: rne_exact)
next
  case False
  then have "N < c * D" using assms by simp
  then have "N div D < c" using assms(1) by (simp add: div_less_iff_less_mult)
  then show ?thesis using rne_upper [of N D] by simp
qed

lemma rne_scale:
  assumes "0 < c"
  shows "round_nearest_even (N * c) (D * c) = round_nearest_even N D"
proof -
  have d: "(N * c) div (D * c) = N div D" using assms by simp
  have m: "(N * c) mod (D * c) = (N mod D) * c" by (simp add: mult_mod_left mult.commute)
  have 1: "2 * (N mod D * c) < D * c \<longleftrightarrow> 2 * (N mod D) < D"
    using assms by (metis mult.assoc mult_less_cancel2)
  have 2: "D * c < 2 * (N mod D * c) \<longleftrightarrow> D < 2 * (N mod D)"
    using assms by (metis mult.assoc mult_less_cancel2)
  show ?thesis
    unfolding round_nearest_even_def Let_def d m 1 2 ..
qed

lemma round_magnitude_exact:
  assumes "representable k" and "0 < D"
  shows "round_magnitude (k * D) D = k"
proof -
  obtain c where c: "k = c * 2 ^ (bitlen k - 24)"
    using assms(1) by (auto simp: representable_def dvd_def mult.commute)
  have "round_nearest_even (k * D) (D * 2 ^ (bitlen k - 24)) = c"
    using rne_exact [of "D * 2 ^ (bitlen k - 24)" c] assms(2) c
    by (metis mult.assoc mult.commute nat_0_less_mult_iff zero_less_numeral zero_less_power)
  then show ?thesis
    using assms(2) c by (simp add: round_magnitude_def Let_def)
qed

lemma round_magnitude_le:
  assumes "representable k" and "0 < D" and "N \<le> k * D"
  shows "round_magnitude N D \<le> k"
proof -
  let ?sh = "bitlen (N div D) - 24"
  have "N div D \<le> k"
    using assms(2,3) by (metis div_le_mono div_mult_self_is_m)
  then have "?sh \<le> bitlen k - 24"
    using bitlen_mono [of "N div D" k] by simp
  then have "(2::nat) ^ ?sh dvd 2 ^ (bitlen k - 24)"
    by (simp add: le_imp_power_dvd)
  then have "2 ^ ?sh dvd k"
    using assms(1) unfolding representable_def by (meson dvd_trans)
  then obtain c where c: "k = c * 2 ^ ?sh"
    by (auto simp: dvd_def mult.commute)
  have "N \<le> c * (D * 2 ^ ?sh)"
    using assms(3) c by (metis mult.assoc mult.commute)
  then have "round_nearest_even N (D * 2 ^ ?sh) \<le> c"
    using assms(2) by (intro rne_le) simp_all
  then have "round_nearest_even N (D * 2 ^ ?sh) * 2 ^ ?sh \<le> c * 2 ^ ?sh"
    by (rule mult_le_mono1)
  then show ?thesis
    using c by (simp add: round_magnitude_def Let_def)
qed

lemma round_magnitude_ge_div:
  assumes "0 < D"
  shows "2 ^ (bitlen (N div D) - 1) \<le> round_magnitude N D \<or> N div D = 0"
proof (cases "N div D = 0")
  case True
  then show ?thesis by simp
next
  case False
  let ?q = "N div D"
  let ?sh = "bitlen ?q - 24"
  have pos: "0 < bitlen ?q" using False by (simp add: bitlen_pos)
  have low: "2 ^ (bitlen ?q - 1) \<le> ?q" using False by (intro bitlen_lower) simp
  have "?sh \<le> bitlen ?q - 1" by simp
  then have e: "(2::nat) ^ (bitlen ?q - 1) = 2 ^ (bitlen ?q - 1 - ?sh) * 2 ^ ?sh"
    by (metis le_add_diff_inverse2 power_add)
  have "?q * D \<le> N" by (simp add: div_times_less_eq_dividend)
  then have "2 ^ (bitlen ?q - 1) * D \<le> N"
    using low by (meson mult_le_mono1 order_trans)
  then have "2 ^ (bitlen ?q - 1 - ?sh) * (D * 2 ^ ?sh) \<le> N"
    using e by (metis mult.assoc mult.commute)
  then have "2 ^ (bitlen ?q - 1 - ?sh) \<le> round_nearest_even N (D * 2 ^ ?sh)"
    using assms by (intro rne_ge) simp_all
  then have "2 ^ (bitlen ?q - 1 - ?sh) * 2 ^ ?sh \<le> round_nearest_even N (D * 2 ^ ?sh) * 2 ^ ?sh"
    by (rule mult_le_mono1)
  then show ?thesis
    using e by (simp add: round_magnitude_def Let_def)
qed

lemma round_magnitude_ge:
  assumes "representable k" and "0 < D" and "k * D \<le> N"
  shows "k \<le> round_magnitude N D"
proof -
  let ?q = "N div D"
  let ?sh = "bitlen ?q - 24"
  have kq: "k \<le> ?q"
    using assms(2,3) by (simp add: less_eq_div_iff_mult_less_eq)
  then have ble: "bitlen k \<le> bitlen ?q" by (rule bitlen_mono)
  show ?thesis
  proof (cases "bitlen k = bitlen ?q")
    case True
    then obtain c where c: "k = c * 2 ^ ?sh"
      using assms(1) by (auto simp: representable_def dvd_def mult.commute)
    have "c * (D * 2 ^ ?sh) \<le> N"
      using assms(3) c by (metis mult.assoc mult.commute)
    then have "c \<le> round_nearest_even N (D * 2 ^ ?sh)"
      using assms(2) by (intro rne_ge) simp_all
    then have "c * 2 ^ ?sh \<le> round_nearest_even N (D * 2 ^ ?sh) * 2 ^ ?sh"
      by (rule mult_le_mono1)
    then show ?thesis
      using c by (simp add: round_magnitude_def Let_def)
  next
    case False
    then have lt: "bitlen k \<le> bitlen ?q - 1" using ble by simp
    have "?q \<noteq> 0"
    proof
      assume "?q = 0"
      then have "bitlen ?q = 0" by simp
      then show False using False ble by simp
    qed
    then have "2 ^ (bitlen ?q - 1) \<le> round_magnitude N D"
      using round_magnitude_ge_div [OF assms(2), of N] by simp
    moreover have "k < 2 ^ bitlen k" by (rule bitlen_upper)
    moreover have "(2::nat) ^ bitlen k \<le> 2 ^ (bitlen ?q - 1)"
      using lt by (simp add: power_increasing)
    ultimately show ?thesis by linarith
  qed
qed

lemma round_magnitude_scale:
  assumes "0 < c"
  shows "round_magnitude (N * c) (D * c) = round_magnitude N D"
proof -
  have d: "(N * c) div (D * c) = N div D" using assms by simp
  have "round_nearest_even (N * c) (D * c * 2 ^ sh) = round_nearest_even N (D * 2 ^ sh)" for sh
    using rne_scale [OF assms, of N "D * 2 ^ sh"] by (simp add: mult.assoc mult.commute mult.left_commute)
  then show ?thesis
    by (simp add: round_magnitude_def Let_def d)
qed

lemma round_magnitude_representable:
  assumes "0 < D" and "round_magnitude N D < 2 ^ 277"
  shows "representable (round_magnitude N D)"
proof -
  let ?q = "N div D"
  let ?sh = "bitlen ?q - 24"
  let ?m = "round_nearest_even N (D * 2 ^ ?sh)"
  have k: "round_magnitude N D = ?m * 2 ^ ?sh"
    by (simp add: round_magnitude_def Let_def)
  have "?q < 2 ^ bitlen ?q" by (rule bitlen_upper)
  also have "(2::nat) ^ bitlen ?q \<le> 2 ^ (24 + ?sh)"
    by (simp add: power_increasing)
  finally have "?q < 2 ^ 24 * 2 ^ ?sh" by (simp add: power_add)
  then have "?q div 2 ^ ?sh < 2 ^ 24"
    by (simp add: less_mult_imp_div_less)
  moreover have "N div (D * 2 ^ ?sh) = ?q div 2 ^ ?sh"
    by (simp add: div_mult2_eq)
  ultimately have m: "?m \<le> 2 ^ 24"
    using rne_upper [of N "D * 2 ^ ?sh"] by simp
  show ?thesis
  proof (cases "?m = 2 ^ 24")
    case True
    then have e: "round_magnitude N D = 2 ^ (24 + ?sh)"
      using k by (simp add: power_add)
    have "bitlen (2 ^ (24 + ?sh)) \<le> 25 + ?sh"
      by (rule bitlen_le) simp
    then have "bitlen (2 ^ (24 + ?sh)) - 24 \<le> 24 + ?sh" by simp
    then have "(2::nat) ^ (bitlen (2 ^ (24 + ?sh)) - 24) dvd 2 ^ (24 + ?sh)"
      by (rule le_imp_power_dvd)
    then show ?thesis
      using assms(2) e by (simp add: representable_def)
  next
    case False
    then have "?m < 2 ^ 24" using m by simp
    then have "?m * 2 ^ ?sh < 2 ^ 24 * 2 ^ ?sh" by simp
    then have "bitlen (?m * 2 ^ ?sh) \<le> 24 + ?sh"
      by (intro bitlen_le) (simp add: power_add)
    then have "bitlen (?m * 2 ^ ?sh) - 24 \<le> ?sh" by simp
    then have "(2::nat) ^ (bitlen (?m * 2 ^ ?sh) - 24) dvd 2 ^ ?sh"
      by (rule le_imp_power_dvd)
    then have "2 ^ (bitlen (?m * 2 ^ ?sh) - 24) dvd ?m * 2 ^ ?sh"
      by (rule dvd_mult)
    then show ?thesis
      using assms(2) k by (simp add: representable_def)
  qed
qed

lemma round_magnitude_0 [simp]: "round_magnitude 0 D = 0"
  by (simp add: round_magnitude_def round_nearest_even_def)

lemma round_f32_valid: "0 < D \<Longrightarrow> valid_f32 (round_f32 s N D)"
  using round_magnitude_representable [of D N]
  by (simp add: round_f32_def Let_def not_le)

lemma fmul_valid: "valid_f32 (fmul x y)"
  by (cases x; cases y) (simp_all add: round_f32_valid)

lemma representable_0 [simp]: "representable 0"
  by (simp add: representable_def)

lemma fadd_valid: "valid_f32 (fadd x y)"
  by (cases x; cases y) (simp_all add: round_f32_valid Let_def)

lemma fdiv_valid: "valid_f32 (fdiv x y)"
  by (cases x; cases y) (simp_all add: round_f32_valid)

lemma round_f32_exact:
  "representable k \<Longrightarrow> 0 < D \<Longrightarrow> round_f32 s (k * D) D = Finite s k"
  by (simp add: round_f32_def round_magnitude_exact representable_def)

lemma round_f32_scale: "0 < c \<Longrightarrow> round_f32 s (N * c) (D * c) = round_f32 s N D"
  by (simp add: round_f32_def round_magnitude_scale)

lemma round_f32_finite:
  "round_magnitude N D < 2 ^ 277 \<Longrightarrow> round_f32 s N D = Finite s (round_magnitude N D)"
  by (simp add: round_f32_def Let_def)

lemma round_f32_cases:
  "round_f32 s N D = Infinity s \<or> round_f32 s N D = Finite s (round_magnitude N D)"
  by (simp add: round_f32_def Let_def)

lemma round_f32_upper:
  assumes "0 < Q" and "representable k" and "P \<le> with_sign t k * int Q"
    and "P \<noteq> 0 \<longrightarrow> sg = (P < 0)"
  shows "fle (round_f32 sg (nat \<bar>P\<bar>) Q) (Finite t k)"
proof -
  consider "0 < P" | "P = 0" | "P < 0" by linarith
  then show ?thesis
  proof cases
    case 1
    then have "0 < with_sign t k * int Q" using assms(3) by simp
    then have t: "with_sign t k = int k" using assms(1)
      by (auto simp: with_sign_def zero_less_mult_iff split: if_splits)
    have "int (nat \<bar>P\<bar>) \<le> int (k * Q)" using 1 assms(3) t by simp
    then have "nat \<bar>P\<bar> \<le> k * Q" by linarith
    then have le: "round_magnitude (nat \<bar>P\<bar>) Q \<le> k"
      using assms(1,2) by (intro round_magnitude_le)
    then have "round_magnitude (nat \<bar>P\<bar>) Q < 2 ^ 277"
      using assms(2) by (simp add: representable_def)
    then show ?thesis
      using le t 1 assms(4) by (simp add: round_f32_finite with_sign_def)
  next
    case 2
    then have "0 \<le> with_sign t k" using assms(1,3) by (simp add: zero_le_mult_iff)
    then show ?thesis using 2 by (auto simp: round_f32_finite with_sign_def split: if_splits)
  next
    case 3
    then have sg: "sg" using assms(4) by simp
    show ?thesis
    proof (cases "with_sign t k < 0")
      case False
      then show ?thesis
        using sg round_f32_cases [of sg "nat \<bar>P\<bar>" Q] by (auto simp: with_sign_def split: if_splits)
    next
      case True
      then have t: "with_sign t k = - int k" by (auto simp: with_sign_def split: if_splits)
      have "int (k * Q) \<le> int (nat \<bar>P\<bar>)" using 3 assms(3) t by simp
      then have "k * Q \<le> nat \<bar>P\<bar>" by linarith
      then have "k \<le> round_magnitude (nat \<bar>P\<bar>) Q"
        using assms(1,2) by (intro round_magnitude_ge)
      then show ?thesis
        using sg t round_f32_cases [of sg "nat \<bar>P\<bar>" Q] by (auto simp: with_sign_def)
    qed
  qed
qed

lemma round_f32_lower:
  assumes "0 < Q" and "representable k" and "with_sign t k * int Q \<le> P"
    and "P \<noteq> 0 \<longrightarrow> sg = (P < 0)"
  shows "fle (Finite t k) (round_f32 sg (nat \<bar>P\<bar>) Q)"
proof -
  consider "P < 0" | "P = 0" | "0 < P" by linarith
  then show ?thesis
  proof cases
    case 1
    then have sg: "sg" using assms(4) by simp
    have "with_sign t k * int Q < 0" using 1 assms(3) by simp
    then have t: "with_sign t k = - int k" using assms(1)
      by (auto simp: with_sign_def mult_less_0_iff split: if_splits)
    have "int (nat \<bar>P\<bar>) \<le> int (k * Q)" using 1 assms(3) t by simp
    then have "nat \<bar>P\<bar> \<le> k * Q" by linarith
    then have le: "round_magnitude (nat \<bar>P\<bar>) Q \<le> k"
      using assms(1,2) by (intro round_magnitude_le)
    then have "round_magnitude (nat \<bar>P\<bar>) Q < 2 ^ 277"
      using assms(2) by (simp add: representable_def)
    then show ?thesis
      using le t sg by (simp add: round_f32_finite with_sign_def)
  next
    case 2
    then have "with_sign t k \<le> 0" using assms(1,3) by (simp add: mult_le_0_iff)
    then show ?thesis using 2 by (auto simp: round_f32_finite with_sign_def split: if_splits)
  next
    case 3
    then have sg: "\<not> sg" using assms(4) by simp
    show ?thesis
    proof (cases "0 < with_sign t k")
      case False
      then show ?thesis
        using sg round_f32_cases [of sg "nat \<bar>P\<bar>" Q] by (auto simp: with_sign_def split: if_splits)
    next
      case True
      then have t: "with_sign t k = int k" by (auto simp: with_sign_def split: if_splits)
      have "int (k * Q) \<le> int (nat \<bar>P\<bar>)" using 3 assms(3) t by simp
      then have "k * Q \<le> nat \<bar>P\<bar>" by linarith
      then have "k \<le> round_magnitude (nat \<bar>P\<bar>) Q"
        using assms(1,2) by (intro round_magnitude_ge)
      then show ?thesis
        using sg t round_f32_cases [of sg "nat \<bar>P\<bar>" Q] by (auto simp: with_sign_def)
    qed
  qed
qed

section \<open>Runs without rounding error\<close>

lemma is_finite_iff: "is_finite x \<longleftrightarrow> (\<exists>s k. x = Finite s k)"
  by (cases x) simp_all

lemma exact_run_sums:
  assumes "length F = length W" and "exact_run (a, b) F W" and "is_finite a" and "is_finite b"
  shows "is_finite (foldl fadd a (map2 fmul F W)) \<and>
         is_finite (foldl fadd b W) \<and>
         units (foldl fadd a (map2 fmul F W)) * 2 ^ 149 = units a * 2 ^ 149 + dot_units F W \<and>
         units (foldl fadd b W) = units b + sum_units W"
  using assms
proof (induction F W arbitrary: a b rule: list_induct2)
  case Nil
  then show ?case by (simp add: dot_units_def sum_units_def)
next
  case (Cons f F w W)
  have m: "units (fmul f w) * 2 ^ 149 = units f * units w"
    and a: "is_finite (fadd a (fmul f w))" "units (fadd a (fmul f w)) = units a + units (fmul f w)"
    and b: "is_finite (fadd b w)" "units (fadd b w) = units b + units w"
    and r: "exact_run (fadd a (fmul f w), fadd b w) F W"
    using Cons.prems(1) by (simp_all add: exact_mul_def exact_add_def)
  from Cons.IH [OF r a(1) b(1)] show ?case
    using m a(2) b(2) by (simp add: dot_units_def sum_units_def algebra_simps)
qed

lemma units_zero [simp]: "units zero_f32 = 0"
  by (simp add: zero_f32_def with_sign_def)

text \<open>The quotient of two finite values whose units are \<open>P / 2^149\<close> and \<open>Q\<close>.\<close>

lemma fdiv_round_ratio:
  assumes "is_finite x" and "is_finite y" and "units x * 2 ^ 149 = P" and "units y = Q" and "Q \<noteq> 0"
  shows "\<exists>s. fdiv x y = round_f32 (s \<noteq> (Q < 0)) (nat \<bar>P\<bar>) (nat \<bar>Q\<bar>) \<and> (P \<noteq> 0 \<longrightarrow> s = (P < 0))"
proof -
  obtain s k t l where x: "x = Finite s k" and y: "y = Finite t l"
    using assms(1,2) by (auto simp: is_finite_iff)
  have l: "l \<noteq> 0" and Q: "nat \<bar>Q\<bar> = l" and t: "(Q < 0) = t"
    using assms(4,5) y by (auto simp: with_sign_def split: if_splits)
  have P: "nat \<bar>P\<bar> = k * 2 ^ 149"
    using assms(3) x by (auto simp: with_sign_def nat_mult_distrib nat_power_eq abs_mult split: if_splits)
  have "P \<noteq> 0 \<longrightarrow> s = (P < 0)"
    using assms(3) x by (auto simp: with_sign_def mult_less_0_iff split: if_splits)
  then show ?thesis
    using x y l Q t P by auto
qed

lemma exact_add_zero:
  assumes "is_finite x" and "valid_f32 x"
  shows "exact_add zero_f32 x"
proof -
  obtain s k where x: "x = Finite s k" and k: "representable k"
    using assms by (cases x) simp_all
  show ?thesis
  proof (cases "k = 0")
    case True
    then show ?thesis using x by (simp add: exact_add_def zero_f32_def with_sign_def)
  next
    case False
    then have "fadd zero_f32 x = Finite s k"
      using x round_f32_exact [OF k, of 1 s]
      by (auto simp: zero_f32_def with_sign_def)
    then show ?thesis using x by (simp add: exact_add_def zero_f32_def with_sign_def)
  qed
qed

lemma feq_zero_iff: "is_finite x \<Longrightarrow> feq x zero_f32 \<longleftrightarrow> units x = 0"
  by (cases x) (auto simp: zero_f32_def with_sign_def)

lemma exact_mul_finite: "exact_mul f w \<Longrightarrow> is_finite f \<and> is_finite w"
  by (cases f; cases w) (simp_all add: exact_mul_def split: if_splits)

lemma exact_run_finite:
  "length F = length W \<Longrightarrow> exact_run (a, b) F W \<Longrightarrow>
     (\<forall>f \<in> set F. is_finite f) \<and> (\<forall>w \<in> set W. is_finite w)"
  by (induction F W arbitrary: a b rule: list_induct2) (auto dest: exact_mul_finite)

text \<open>A run without rounding error returns the exact quotient, rounded once.\<close>

lemma CalculateUtility_exact:
  assumes "factors \<noteq> nullptr" and "weights \<noteq> nullptr"
    and "array_at s factors F" and "array_at s weights W"
    and "length F = unat len" and "length W = unat len" and "1 \<le> unat len"
    and "exact_run (zero_f32, zero_f32) F W" and "sum_units W \<noteq> 0"
  shows "\<exists>sg. fst (CalculateUtility factors weights len s) =
            Inr (round_f32 (sg \<noteq> (sum_units W < 0)) (nat \<bar>dot_units F W\<bar>) (nat \<bar>sum_units W\<bar>)) \<and>
          (dot_units F W \<noteq> 0 \<longrightarrow> sg = (dot_units F W < 0))"
proof -
  have len: "len \<noteq> 0" using assms(7) by auto
  have lens: "length F = length W" using assms(5,6) by simp
  let ?a = "foldl fadd zero_f32 (map2 fmul F W)"
  let ?b = "foldl fadd zero_f32 W"
  have fin: "is_finite ?a" "is_finite ?b"
    and ua: "units ?a * 2 ^ 149 = dot_units F W" and ub: "units ?b = sum_units W"
    using exact_run_sums [OF lens assms(8)] by (simp_all add: zero_f32_def with_sign_def)
  have nz: "\<not> feq ?b zero_f32"
    using fin(2) ub assms(9) by (simp add: feq_zero_iff)
  have res: "fst (CalculateUtility factors weights len s) = Inr (fdiv ?a ?b)"
    using assms(1,2) len nz accumulate_run [OF assms(3-6), of 0 zero_f32 zero_f32]
    by (simp add: CalculateUtility_def)
  show ?thesis
    using fdiv_round_ratio [OF fin ua ub assms(9)] res by simp
qed

lemma dot_units_upper:
  "length F = length W \<Longrightarrow> \<forall>f \<in> set F. units f \<le> M \<Longrightarrow> \<forall>w \<in> set W. 0 \<le> units w \<Longrightarrow>
     dot_units F W \<le> M * sum_units W"
proof (induction F W rule: list_induct2)
  case Nil
  then show ?case by (simp add: dot_units_def sum_units_def)
next
  case (Cons f F w W)
  have "units f * units w \<le> M * units w"
    using Cons.prems by (intro mult_right_mono) simp_all
  moreover have "dot_units F W \<le> M * sum_units W"
    using Cons by simp
  ultimately show ?case
    by (simp add: dot_units_def sum_units_def algebra_simps)
qed

lemma dot_units_lower:
  "length F = length W \<Longrightarrow> \<forall>f \<in> set F. M \<le> units f \<Longrightarrow> \<forall>w \<in> set W. 0 \<le> units w \<Longrightarrow>
     M * sum_units W \<le> dot_units F W"
proof (induction F W rule: list_induct2)
  case Nil
  then show ?case by (simp add: dot_units_def sum_units_def)
next
  case (Cons f F w W)
  have "M * units w \<le> units f * units w"
    using Cons.prems by (intro mult_right_mono) simp_all
  moreover have "M * sum_units W \<le> dot_units F W"
    using Cons by simp
  ultimately show ?case
    by (simp add: dot_units_def sum_units_def algebra_simps)
qed

lemma units_greatest: "F \<noteq> [] \<Longrightarrow> \<exists>hi \<in> set F. \<forall>f \<in> set F. units f \<le> units hi"
proof -
  assume "F \<noteq> []"
  then have "Max (units ` set F) \<in> units ` set F" by (intro Max_in) simp_all
  then obtain hi where "hi \<in> set F" "units hi = Max (units ` set F)" by auto
  then show ?thesis by (intro bexI [of _ hi]) simp_all
qed

lemma units_least: "F \<noteq> [] \<Longrightarrow> \<exists>lo \<in> set F. \<forall>f \<in> set F. units lo \<le> units f"
proof -
  assume "F \<noteq> []"
  then have "Min (units ` set F) \<in> units ` set F" by (intro Min_in) simp_all
  then obtain lo where "lo \<in> set F" "units lo = Min (units ` set F)" by auto
  then show ?thesis by (intro bexI [of _ lo]) simp_all
qed

lemma fle_units: "is_finite x \<Longrightarrow> is_finite y \<Longrightarrow> fle x y \<longleftrightarrow> units x \<le> units y"
  by (cases x; cases y) simp_all

lemma sum_units_equal:
  "\<forall>x \<in> set W. x = w \<Longrightarrow> sum_units W = int (length W) * units w"
  by (induction W) (simp_all add: sum_units_def algebra_simps)

lemma dot_units_equal:
  "length F = length W \<Longrightarrow> \<forall>x \<in> set W. x = w \<Longrightarrow> dot_units F W = sum_units F * units w"
  by (induction F W rule: list_induct2) (simp_all add: dot_units_def sum_units_def algebra_simps)

lemma feq_round_f32_zero: "feq (round_f32 s 0 D) (round_f32 t 0 D')"
  by (simp add: round_f32_def)

lemma feq_round_f32_refl: "feq (round_f32 s N D) (round_f32 s N D)"
  by (simp add: round_f32_def Let_def)

section \<open>The value of the score\<close>

text \<open>
  Claim C4, as amended. When all weights are non-negative, the weight total does not compare
  equal to zero and no product or partial sum of the run has a rounding error, the score
  lies between the least and the greatest factor. (Without the last condition the score
  can leave the range: five factors 16777215.0 with weights 1.0 give 16777214.0.)
\<close>

theorem CalculateUtility_within_factor_range:
  assumes "factors \<noteq> nullptr" and "weights \<noteq> nullptr"
    and "array_at s factors F" and "array_at s weights W"
    and "length F = unat len" and "length W = unat len" and "1 \<le> unat len"
    and "\<forall>f \<in> set F. valid_f32 f"
    and "\<forall>w \<in> set W. fle zero_f32 w"
    and "exact_run (zero_f32, zero_f32) F W"
    and "\<not> feq (weight_total W) zero_f32"
  shows "\<exists>r. fst (CalculateUtility factors weights len s) = Inr r \<and>
           (\<exists>lo \<in> set F. \<exists>hi \<in> set F.
              (\<forall>f \<in> set F. fle lo f \<and> fle f hi) \<and> fle lo r \<and> fle r hi)"
proof -
  have lens: "length F = length W" and ne: "F \<noteq> []" using assms(5,6,7) by auto
  have finF: "\<forall>f \<in> set F. is_finite f" and finW: "\<forall>w \<in> set W. is_finite w"
    using exact_run_finite [OF lens assms(10)] by simp_all
  have nonneg: "\<forall>w \<in> set W. 0 \<le> units w"
    using assms(9) finW by (auto simp: fle_units zero_f32_def with_sign_def)
  have tot: "is_finite (weight_total W)" "units (weight_total W) = sum_units W"
    using exact_run_sums [OF lens assms(10)]
    by (simp_all add: weight_total_def zero_f32_def with_sign_def)
  then have Q0: "sum_units W \<noteq> 0"
    using assms(11) by (simp add: feq_zero_iff)
  moreover have "0 \<le> sum_units W"
    unfolding sum_units_def using nonneg by (intro sum_list_nonneg) auto
  ultimately have Q: "0 < sum_units W" by simp
  obtain sg where res: "fst (CalculateUtility factors weights len s) =
      Inr (round_f32 sg (nat \<bar>dot_units F W\<bar>) (nat (sum_units W)))"
    and sg: "dot_units F W \<noteq> 0 \<longrightarrow> sg = (dot_units F W < 0)"
    using CalculateUtility_exact [OF assms(1-7) assms(10) Q0] Q by auto
  obtain hi where hi: "hi \<in> set F" "\<forall>f \<in> set F. units f \<le> units hi"
    using units_greatest [OF ne] by blast
  obtain lo where lo: "lo \<in> set F" "\<forall>f \<in> set F. units lo \<le> units f"
    using units_least [OF ne] by blast
  have "is_finite hi" "valid_f32 hi" "is_finite lo" "valid_f32 lo"
    using hi(1) lo(1) finF assms(8) by simp_all
  then obtain th kh tl kl where hi_eq: "hi = Finite th kh" and hi_rep: "representable kh"
    and lo_eq: "lo = Finite tl kl" and lo_rep: "representable kl"
    by (cases hi; cases lo) simp_all
  have up: "dot_units F W \<le> with_sign th kh * int (nat (sum_units W))"
    using dot_units_upper [OF lens hi(2) nonneg] Q hi_eq by simp
  have down: "with_sign tl kl * int (nat (sum_units W)) \<le> dot_units F W"
    using dot_units_lower [OF lens lo(2) nonneg] Q lo_eq by simp
  have "fle (round_f32 sg (nat \<bar>dot_units F W\<bar>) (nat (sum_units W))) hi"
    unfolding hi_eq using Q hi_rep up sg by (intro round_f32_upper) simp_all
  moreover have "fle lo (round_f32 sg (nat \<bar>dot_units F W\<bar>) (nat (sum_units W)))"
    unfolding lo_eq using Q lo_rep down sg by (intro round_f32_lower) simp_all
  moreover have "\<forall>f \<in> set F. fle lo f \<and> fle f hi"
    using lo hi finF by (simp add: fle_units)
  ultimately show ?thesis
    using res lo(1) hi(1) by blast
qed

theorem CalculateUtility_within_factor_range_witness:
  "exact_run (zero_f32, zero_f32)
     [f32_of_nat 1, f32_of_nat 2, f32_of_nat 3] [f32_of_nat 1, f32_of_nat 2, f32_of_nat 1] \<and>
   (\<exists>r. fst (CalculateUtility 100 200 (3 :: 64 word)
           (example_state [f32_of_nat 1, f32_of_nat 2, f32_of_nat 3]
                          [f32_of_nat 1, f32_of_nat 2, f32_of_nat 1])) = Inr r \<and>
      (\<exists>lo \<in> set [f32_of_nat 1, f32_of_nat 2, f32_of_nat 3].
         \<exists>hi \<in> set [f32_of_nat 1, f32_of_nat 2, f32_of_nat 3].
           (\<forall>f \<in> set [f32_of_nat 1, f32_of_nat 2, f32_of_nat 3]. fle lo f \<and> fle f hi) \<and>
           fle lo r \<and> fle r hi))"
proof -
  let ?F = "[f32_of_nat 1, f32_of_nat 2, f32_of_nat 3]"
  let ?W = "[f32_of_nat 1, f32_of_nat 2, f32_of_nat 1]"
  have ex: "exact_run (zero_f32, zero_f32) ?F ?W"
    by (simp add: f32_eval exact_eval)
  have v: "\<forall>f \<in> set ?F. valid_f32 f"
    by (simp add: f32_eval exact_eval)
  have nn: "\<forall>w \<in> set ?W. fle zero_f32 w"
    by (simp add: f32_eval)
  have nz: "\<not> feq (weight_total ?W) zero_f32"
    by (simp add: f32_eval)
  show ?thesis
    using ex CalculateUtility_within_factor_range
      [of 100 200 "example_state ?F ?W" ?F ?W "3 :: 64 word",
       OF _ _ example_state_factors example_state_weights _ _ _ v nn ex nz]
    by (simp add: nullptr_def)
qed

theorem CalculateUtility_within_factor_range_counterexample:
  "fle zero_f32 (f32_of_nat 1) \<and>
   fst (CalculateUtility 100 200 (5 :: 64 word)
     (example_state
        [f32_of_nat 16777215, f32_of_nat 16777215, f32_of_nat 16777215, f32_of_nat 16777215,
         f32_of_nat 16777215]
        [f32_of_nat 1, f32_of_nat 1, f32_of_nat 1, f32_of_nat 1, f32_of_nat 1])) =
     Inr (f32_of_nat 16777214) \<and>
   \<not> fle (f32_of_nat 16777215) (f32_of_nat 16777214)"
  by (simp add: example_run f32_eval)

text \<open>
  Claim C5, as amended. For a single element with a finite non-zero weight whose product
  with the factor has no rounding error, the score compares equal to the factor, and is
  the factor itself unless the factor is a zero (whose sign can change); in particular
  \<open>F = [5.0]\<close>, \<open>W = [2.0]\<close> gives exactly 5.0. (With a rounded product it can differ: the
  factor 7.0 with the weight \<^verbatim>\<open>1.0f / 3.0f\<close> gives 7.0000005.)
\<close>

theorem CalculateUtility_single_element:
  "(factors \<noteq> nullptr \<and> weights \<noteq> nullptr \<and>
    array_at s factors [f] \<and> array_at s weights [w] \<and> unat len = 1 \<and>
    valid_f32 f \<and> valid_f32 w \<and> is_finite w \<and> \<not> feq w zero_f32 \<and> exact_mul f w
    \<longrightarrow> (\<exists>r. fst (CalculateUtility factors weights len s) = Inr r \<and> feq r f \<and>
              (\<not> feq f zero_f32 \<longrightarrow> r = f))) \<and>
   fst (CalculateUtility 100 200 (1 :: 64 word) (example_state [f32_of_nat 5] [f32_of_nat 2])) =
     Inr (f32_of_nat 5)"
proof (intro conjI impI)
  assume a: "factors \<noteq> nullptr \<and> weights \<noteq> nullptr \<and>
    array_at s factors [f] \<and> array_at s weights [w] \<and> unat len = 1 \<and>
    valid_f32 f \<and> valid_f32 w \<and> is_finite w \<and> \<not> feq w zero_f32 \<and> exact_mul f w"
  then have finf: "is_finite f" using exact_mul_finite by blast
  obtain sf kf where f: "f = Finite sf kf" and kf: "representable kf"
    using finf a by (cases f) simp_all
  obtain sw kw where w: "w = Finite sw kw" and kw: "representable kw"
    using a by (cases w) simp_all
  have kw0: "0 < kw" using a w by (auto simp: zero_f32_def)
  have run: "exact_run (zero_f32, zero_f32) [f] [w]"
    using a exact_mul_finite [of f w] exact_add_zero [of "fmul f w"] exact_add_zero [of w]
    by (simp add: fmul_valid exact_mul_def)
  have Q: "sum_units [w] \<noteq> 0" "(sum_units [w] < 0) = sw" "nat \<bar>sum_units [w]\<bar> = kw"
    using w kw0 by (auto simp: sum_units_def with_sign_def)
  have P: "nat \<bar>dot_units [f] [w]\<bar> = kf * kw"
    using f w by (simp add: dot_units_def with_sign_def abs_mult nat_mult_distrib)
  have Ps: "kf \<noteq> 0 \<Longrightarrow> dot_units [f] [w] \<noteq> 0 \<and> (dot_units [f] [w] < 0) = (sf \<noteq> sw)"
    using f w kw0 by (auto simp: dot_units_def with_sign_def mult_less_0_iff)
  obtain sg where res: "fst (CalculateUtility factors weights len s) =
      Inr (round_f32 (sg \<noteq> sw) (kf * kw) kw)"
    and sg: "dot_units [f] [w] \<noteq> 0 \<longrightarrow> sg = (dot_units [f] [w] < 0)"
    using CalculateUtility_exact [of factors weights s "[f]" "[w]" len, OF _ _ _ _ _ _ _ run Q(1)] a
    unfolding Q P by auto
  have r: "round_f32 (sg \<noteq> sw) (kf * kw) kw = Finite (sg \<noteq> sw) kf"
    using kf kw0 by (rule round_f32_exact)
  show "\<exists>r. fst (CalculateUtility factors weights len s) = Inr r \<and> feq r f \<and>
          (\<not> feq f zero_f32 \<longrightarrow> r = f)"
  proof (cases "kf = 0")
    case True
    then show ?thesis using res r f by (simp add: zero_f32_def)
  next
    case False
    then have "(sg \<noteq> sw) = sf" using Ps sg by auto
    then show ?thesis using res r f by simp
  qed
next
  show "fst (CalculateUtility 100 200 (1 :: 64 word) (example_state [f32_of_nat 5] [f32_of_nat 2])) =
     Inr (f32_of_nat 5)"
    by (simp add: example_run f32_eval)
qed

theorem CalculateUtility_single_element_witness:
  "exact_mul (f32_of_nat 3) (f32_neg (f32_of_nat 4)) \<and>
   fst (CalculateUtility 100 200 (1 :: 64 word)
     (example_state [f32_of_nat 3] [f32_neg (f32_of_nat 4)])) = Inr (f32_of_nat 3)"
proof -
  let ?f = "f32_of_nat 3"
  let ?w = "f32_neg (f32_of_nat 4)"
  have h: "valid_f32 ?f" "valid_f32 ?w" "is_finite ?w" "\<not> feq ?w zero_f32" "exact_mul ?f ?w"
    "\<not> feq ?f zero_f32"
    by (simp_all add: f32_eval exact_eval)
  have "(100 :: addr) \<noteq> nullptr" "(200 :: addr) \<noteq> nullptr" "unat (1 :: 64 word) = 1"
    by (simp_all add: nullptr_def)
  then show ?thesis
    using h CalculateUtility_single_element
      [of 100 200 "example_state [?f] [?w]" ?f ?w "1 :: 64 word"]
      example_state_factors [of "[?f]" "[?w]"] example_state_weights [of "[?f]" "[?w]"]
    by auto
qed

theorem CalculateUtility_single_element_counterexample:
  "valid_f32 (fdiv (f32_of_nat 1) (f32_of_nat 3)) \<and>
   \<not> feq (fdiv (f32_of_nat 1) (f32_of_nat 3)) zero_f32 \<and>
   fst (CalculateUtility 100 200 (1 :: 64 word)
     (example_state [f32_of_nat 7] [fdiv (f32_of_nat 1) (f32_of_nat 3)])) =
     Inr (Finite False (14680065 * 2 ^ 128)) \<and>
   f32_of_nat 7 = Finite False (14680064 * 2 ^ 128) \<and>
   \<not> feq (Finite False (14680065 * 2 ^ 128)) (f32_of_nat 7)"
  by (simp add: example_run f32_eval representable_def)

text \<open>
  Claim C7, as amended. When all weights are the same non-zero value and no product or
  partial sum of the run has a rounding error, the score compares equal to the arithmetic
  mean of the factors, rounded once; in particular \<open>F = [1, 2, 3]\<close>, \<open>W = [1, 1, 1]\<close> gives
  exactly 2.0 and \<open>F = [-4, 4]\<close>, \<open>W = [1, 1]\<close> gives exactly 0.0. (With rounding it can
  differ: the factors 12000000.0 and 2.0 with weights 3.0 give 6000001.5.)
\<close>

theorem CalculateUtility_equal_weights:
  "(factors \<noteq> nullptr \<and> weights \<noteq> nullptr \<and>
    array_at s factors F \<and> array_at s weights W \<and>
    length F = unat len \<and> length W = unat len \<and> 1 \<le> unat len \<and>
    (\<forall>x \<in> set W. x = w) \<and> \<not> feq w zero_f32 \<and> exact_run (zero_f32, zero_f32) F W
    \<longrightarrow> (\<exists>r. fst (CalculateUtility factors weights len s) = Inr r \<and> feq r (mean_f32 F))) \<and>
   fst (CalculateUtility 100 200 (3 :: 64 word)
     (example_state [f32_of_nat 1, f32_of_nat 2, f32_of_nat 3]
                    [f32_of_nat 1, f32_of_nat 1, f32_of_nat 1])) = Inr (f32_of_nat 2) \<and>
   fst (CalculateUtility 100 200 (2 :: 64 word)
     (example_state [f32_neg (f32_of_nat 4), f32_of_nat 4]
                    [f32_of_nat 1, f32_of_nat 1])) = Inr zero_f32"
proof (intro conjI impI)
  assume a: "factors \<noteq> nullptr \<and> weights \<noteq> nullptr \<and>
    array_at s factors F \<and> array_at s weights W \<and>
    length F = unat len \<and> length W = unat len \<and> 1 \<le> unat len \<and>
    (\<forall>x \<in> set W. x = w) \<and> \<not> feq w zero_f32 \<and> exact_run (zero_f32, zero_f32) F W"
  then have lens: "length F = length W" and n: "0 < length W" and nF: "0 < length F" by simp_all
  have "w \<in> set W" using a n by (cases W) auto
  then have "is_finite w"
    using exact_run_finite [OF lens, of zero_f32 zero_f32] a by blast
  then obtain t l where w: "w = Finite t l" by (cases w) simp_all
  have l: "0 < l" using a w by (auto simp: zero_f32_def)
  let ?S = "sum_units F"
  let ?n = "length F"
  have Q: "sum_units W = int ?n * with_sign t l"
    using sum_units_equal [of W w] a w lens by simp
  have P: "dot_units F W = ?S * with_sign t l"
    using dot_units_equal [OF lens, of w] a w by simp
  have Q0: "sum_units W \<noteq> 0" and Qs: "(sum_units W < 0) = t"
    and Qn: "nat \<bar>sum_units W\<bar> = ?n * l"
    using Q nF l by (auto simp: with_sign_def abs_mult nat_mult_distrib mult_less_0_iff)
  have Pn: "nat \<bar>dot_units F W\<bar> = nat \<bar>?S\<bar> * l"
    using P by (simp add: with_sign_def abs_mult nat_mult_distrib)
  have Ps: "?S \<noteq> 0 \<Longrightarrow> dot_units F W \<noteq> 0 \<and> (dot_units F W < 0) = ((?S < 0) \<noteq> t)"
    using P l by (auto simp: with_sign_def mult_less_0_iff)
  obtain sg where res: "fst (CalculateUtility factors weights len s) =
      Inr (round_f32 (sg \<noteq> t) (nat \<bar>?S\<bar> * l) (?n * l))"
    and sg: "dot_units F W \<noteq> 0 \<longrightarrow> sg = (dot_units F W < 0)"
    using CalculateUtility_exact [of factors weights s F W len, OF _ _ _ _ _ _ _ _ Q0] a
    unfolding Qs Qn Pn by auto
  have r: "round_f32 (sg \<noteq> t) (nat \<bar>?S\<bar> * l) (?n * l) = round_f32 (sg \<noteq> t) (nat \<bar>?S\<bar>) ?n"
    using l by (rule round_f32_scale)
  have m: "mean_f32 F = round_f32 (?S < 0) (nat \<bar>?S\<bar>) ?n"
    by (simp add: mean_f32_def round_ratio_def)
  have "feq (round_f32 (sg \<noteq> t) (nat \<bar>?S\<bar>) ?n) (mean_f32 F)"
  proof (cases "?S = 0")
    case True
    then show ?thesis unfolding m by (simp add: feq_round_f32_zero)
  next
    case False
    then have "(sg \<noteq> t) = (?S < 0)" using Ps sg by auto
    then show ?thesis unfolding m by (simp add: feq_round_f32_refl)
  qed
  then show "\<exists>r. fst (CalculateUtility factors weights len s) = Inr r \<and> feq r (mean_f32 F)"
    using res r by simp
next
  show "fst (CalculateUtility 100 200 (3 :: 64 word)
     (example_state [f32_of_nat 1, f32_of_nat 2, f32_of_nat 3]
                    [f32_of_nat 1, f32_of_nat 1, f32_of_nat 1])) = Inr (f32_of_nat 2)"
    by (simp add: example_run f32_eval)
next
  show "fst (CalculateUtility 100 200 (2 :: 64 word)
     (example_state [f32_neg (f32_of_nat 4), f32_of_nat 4]
                    [f32_of_nat 1, f32_of_nat 1])) = Inr zero_f32"
    by (simp add: example_run f32_eval f32_neg_def)
qed

theorem CalculateUtility_equal_weights_witness:
  "exact_run (zero_f32, zero_f32) [f32_of_nat 1, f32_of_nat 6] [f32_of_nat 3, f32_of_nat 3] \<and>
   mean_f32 [f32_of_nat 1, f32_of_nat 6] = Finite False (7 * 2 ^ 148) \<and>
   fst (CalculateUtility 100 200 (2 :: 64 word)
     (example_state [f32_of_nat 1, f32_of_nat 6] [f32_of_nat 3, f32_of_nat 3])) =
     Inr (Finite False (7 * 2 ^ 148))"
proof -
  let ?F = "[f32_of_nat 1, f32_of_nat 6]"
  let ?W = "[f32_of_nat 3, f32_of_nat 3]"
  have ex: "exact_run (zero_f32, zero_f32) ?F ?W"
    by (simp add: f32_eval exact_eval)
  have m: "mean_f32 ?F = Finite False (7 * 2 ^ 148)"
    by (simp add: f32_eval mean_f32_def round_ratio_def sum_units_def)
  have h: "(100 :: addr) \<noteq> nullptr" "(200 :: addr) \<noteq> nullptr"
    "length ?F = unat (2 :: 64 word)" "length ?W = unat (2 :: 64 word)" "1 \<le> unat (2 :: 64 word)"
    "\<forall>x \<in> set ?W. x = f32_of_nat 3" "\<not> feq (f32_of_nat 3) zero_f32"
    by (simp_all add: nullptr_def f32_eval)
  have "\<exists>r. fst (CalculateUtility 100 200 (2 :: 64 word) (example_state ?F ?W)) = Inr r \<and>
      feq r (mean_f32 ?F)"
    using h ex CalculateUtility_equal_weights
      [of 100 200 "example_state ?F ?W" ?F ?W "2 :: 64 word" "f32_of_nat 3"]
      example_state_factors [of ?F ?W] example_state_weights [of ?F ?W]
    by simp
  then obtain r where r: "fst (CalculateUtility 100 200 (2 :: 64 word) (example_state ?F ?W)) = Inr r"
    and "feq r (Finite False (7 * 2 ^ 148))"
    unfolding m by blast
  then have "r = Finite False (7 * 2 ^ 148)"
    by (cases r) (auto split: if_splits)
  with ex m r show ?thesis by simp
qed

theorem CalculateUtility_equal_weights_counterexample:
  "\<not> feq (f32_of_nat 3) zero_f32 \<and>
   mean_f32 [f32_of_nat 12000000, f32_of_nat 2] = f32_of_nat 6000001 \<and>
   fst (CalculateUtility 100 200 (2 :: 64 word)
     (example_state [f32_of_nat 12000000, f32_of_nat 2] [f32_of_nat 3, f32_of_nat 3])) =
     Inr (Finite False (12000003 * 2 ^ 148)) \<and>
   \<not> feq (Finite False (12000003 * 2 ^ 148)) (f32_of_nat 6000001)"
  by (simp add: example_run f32_eval mean_f32_def round_ratio_def sum_units_def)

end
